theory Spec2Isabelle
  imports Complex_Main
begin

section \<open>The task batch-processing pipeline (Q4.py)\<close>

text \<open>
  The pipeline of \<^verbatim>\<open>Q4.py\<close> is an asyncio program: \<^verbatim>\<open>main\<close> seeds the table, starts
  \<^verbatim>\<open>async_update_batch\<close> as a background task, gathers one \<^verbatim>\<open>process_task\<close> coroutine
  per task id, waits on \<^verbatim>\<open>update_queue.join()\<close> and cancels the background task.
  asyncio runs one coroutine at a time and switches only at an \<^verbatim>\<open>await\<close>, so the code
  between two awaits is one atomic step. The model is a step function on an explicit
  state; a schedule (a list of events) fixes which coroutine resumes next and what the
  environment answers (the psutil readings, whether a database statement succeeds,
  how much time passes). Any enabled event may come next, so the runs of the model
  include every order in which the event loop can resume the coroutines. Time is a
  real number that only \<open>Tick\<close> events advance; the steps themselves take no time.
\<close>

subsection \<open>Data\<close>

text \<open>An update is the tuple \<^verbatim>\<open>(task_id, cpu_usage, memory_usage)\<close> put on the queue.
  The REAL columns only carry the values through, so they are modelled as reals.\<close>

type_synonym task_update = "nat \<times> real \<times> real"

datatype task_status = Pending | Completed

record task_row =
  row_id :: nat
  status :: task_status
  cpu_usage :: real
  memory_usage :: real

type_synonym tasks_table = "task_row list"

datatype exn = PsutilError | SqliteError | CancelledError | ValueError

datatype log_msg =
    LogMainStart
  | LogDbSetup
  | LogPopulated
  | LogTaskStart nat
  | LogTaskCompleted nat real real
  | LogBatch nat
  | LogAllProcessed

text \<open>Where \<^verbatim>\<open>async_update_batch\<close> is suspended: in \<^verbatim>\<open>aiosqlite.connect\<close>; in
  \<^verbatim>\<open>wait_for(update_queue.get(), timeout=5)\<close> with the batch collected so far and the
  time the wait began; at the \<^verbatim>\<open>BEGIN\<close> statement; inside the transaction with the
  updates still to execute (none left: at \<^verbatim>\<open>commit\<close>); or ended by an exception.\<close>

datatype acc_pc =
    Connecting
  | Waiting "task_update list" real
  | AtBegin "task_update list"
  | InTxn "task_update list" "task_update list"
  | Raised exn

datatype main_pc = MGather | MJoin | MDone | MFailed exn

record state =
  now :: real
  queue :: "task_update list"
  unfinished :: nat
  sleeping :: "nat list"
  raised :: "exn list"
  acc :: acc_pc
  committed :: tasks_table
  txn :: "tasks_table option"
  mainpc :: main_pc
  logged :: "log_msg list"
  flushed :: "task_update list list"

text \<open>
  \<open>queue\<close> and \<open>unfinished\<close> are the items and the unfinished-task counter of
  \<^verbatim>\<open>update_queue\<close>; \<open>sleeping\<close> holds the ids of the \<^verbatim>\<open>process_task\<close> coroutines still in
  \<^verbatim>\<open>asyncio.sleep(0.1)\<close>; \<open>raised\<close> the exceptions workers ended with; \<open>committed\<close> is
  the table as stored in \<^verbatim>\<open>tasks.db\<close>, \<open>txn\<close> the working copy of the open transaction
  on the accumulator's connection. \<open>flushed\<close> is a history variable: the batches whose
  transaction was committed, in order.
\<close>

datatype acc_input = Got | TimedOut | Db bool

datatype event =
    Tick real
  | Worker nat "exn + real" "exn + nat"
  | Acc acc_input
  | MainGather
  | MainJoin

subsection \<open>Constants of the source\<close>

definition MAX_BATCH :: nat where
  "MAX_BATCH = 100"

definition T_idle :: real where
  "T_idle = 5"

definition SLEEP :: real where
  "SLEEP = 1 / 10"

definition N_TASKS :: nat where
  "N_TASKS = 1000"

text \<open>\<^verbatim>\<open>update_queue = asyncio.Queue()\<close>: the default \<^verbatim>\<open>maxsize\<close> is 0.\<close>

definition update_queue_maxsize :: nat where
  "update_queue_maxsize = 0"

subsection \<open>The table\<close>

text \<open>\<^verbatim>\<open>CREATE TABLE IF NOT EXISTS\<close>: an existing table is kept as it is.\<close>

definition setup_database :: "tasks_table option \<Rightarrow> tasks_table" where
  "setup_database file = (case file of None \<Rightarrow> [] | Some t \<Rightarrow> t)"

text \<open>An INTEGER PRIMARY KEY left out of an INSERT is one more than the largest id
  in the table, and 1 in an empty table.\<close>

definition max_id :: "tasks_table \<Rightarrow> nat" where
  "max_id t = foldr (\<lambda>r m. max (row_id r) m) t 0"

definition insert_pending :: "tasks_table \<Rightarrow> tasks_table" where
  "insert_pending t =
     t @ [\<lparr>row_id = max_id t + 1, status = Pending, cpu_usage = 0, memory_usage = 0\<rparr>]"

fun populate_tasks :: "nat \<Rightarrow> tasks_table \<Rightarrow> tasks_table" where
  "populate_tasks 0 t = t"
| "populate_tasks (Suc k) t = populate_tasks k (insert_pending t)"

text \<open>\<^verbatim>\<open>UPDATE tasks SET status = 'completed', cpu_usage = ?, memory_usage = ? WHERE id = ?\<close>\<close>

fun sql_update :: "task_update \<Rightarrow> tasks_table \<Rightarrow> tasks_table" where
  "sql_update (task_id, cpu, mem) t =
     map (\<lambda>r. if row_id r = task_id
               then r\<lparr>status := Completed, cpu_usage := cpu, memory_usage := mem\<rparr>
               else r) t"

subsection \<open>The queue\<close>

text \<open>\<^verbatim>\<open>Queue.full\<close>: a queue of \<^verbatim>\<open>maxsize <= 0\<close> is never full.\<close>

definition queue_full :: "nat \<Rightarrow> task_update list \<Rightarrow> bool" where
  "queue_full maxsize q = (if maxsize \<le> 0 then False else maxsize \<le> length q)"

definition put :: "task_update \<Rightarrow> state \<Rightarrow> state" where
  "put u s = s\<lparr>queue := queue s @ [u], unfinished := unfinished s + 1\<rparr>"

subsection \<open>process_task\<close>

text \<open>
  The part of \<^verbatim>\<open>process_task\<close> after the sleep, with the two psutil readings
  (\<^verbatim>\<open>cpu_percent()\<close> and \<^verbatim>\<open>memory_info().rss\<close>) given by the environment, each a value
  or an exception. There is no \<^verbatim>\<open>try\<close> in the function: an exception leaves it.
  (\<^verbatim>\<open>psutil.Process()\<close>, called before the sleep, is not told apart from
  \<^verbatim>\<open>cpu_percent()\<close>: an exception of either leaves the function before the put.)
\<close>

definition process_task ::
  "nat \<Rightarrow> exn + real \<Rightarrow> exn + nat \<Rightarrow> state \<Rightarrow> exn + state" where
  "process_task task_id cpu_percent rss s =
     (case cpu_percent of
        Inl e \<Rightarrow> Inl e
      | Inr cpu \<Rightarrow>
          (case rss of
             Inl e \<Rightarrow> Inl e
           | Inr bytes \<Rightarrow>
               (let mem = real bytes / (1024 * 1024);
                    s' = put (task_id, cpu, mem) s
                in Inr (s'\<lparr>logged := logged s' @ [LogTaskCompleted task_id cpu mem]\<rparr>))))"

definition worker_step ::
  "nat \<Rightarrow> exn + real \<Rightarrow> exn + nat \<Rightarrow> state \<Rightarrow> state option" where
  "worker_step i cpu_percent rss s =
     (if i \<in> set (sleeping s) \<and> SLEEP \<le> now s
      then (case process_task i cpu_percent rss s of
              Inl e \<Rightarrow>
                Some (s\<lparr>sleeping := removeAll i (sleeping s), raised := raised s @ [e]\<rparr>)
            | Inr s' \<Rightarrow>
                if queue_full update_queue_maxsize (queue s) then None
                else Some (s'\<lparr>sleeping := removeAll i (sleeping s')\<rparr>))
      else None)"

subsection \<open>async_update_batch\<close>

text \<open>After the inner loop: \<^verbatim>\<open>if updates:\<close> starts the transaction; otherwise the outer
  loop starts again with an empty batch and a new wait.\<close>

definition after_collect :: "task_update list \<Rightarrow> state \<Rightarrow> state" where
  "after_collect updates s =
     (if updates \<noteq> [] then s\<lparr>acc := AtBegin updates\<rparr>
      else s\<lparr>acc := Waiting [] (now s)\<rparr>)"

text \<open>
  One resumption of \<^verbatim>\<open>async_update_batch\<close>. \<open>Got\<close>: the awaited \<^verbatim>\<open>get\<close> returns the head
  of the queue; the item is appended and \<^verbatim>\<open>task_done()\<close> is called at once.
  \<open>TimedOut\<close>: the queue stayed empty for the 5 time units of \<^verbatim>\<open>wait_for\<close>.
  \<open>Db ok\<close>: the awaited database call returns (\<open>ok\<close>) or raises. No exception but
  \<^verbatim>\<open>TimeoutError\<close> is caught, so a raising statement ends the coroutine; leaving
  \<^verbatim>\<open>async with aiosqlite.connect\<close> closes the connection, which drops its open
  transaction.
\<close>

fun acc_step :: "acc_pc \<Rightarrow> acc_input \<Rightarrow> state \<Rightarrow> state option" where
  "acc_step Connecting (Db ok) s =
     (if ok then Some (s\<lparr>acc := Waiting [] (now s)\<rparr>)
      else Some (s\<lparr>acc := Raised SqliteError\<rparr>))"
| "acc_step (Waiting updates t0) Got s =
     (case queue s of
        [] \<Rightarrow> None
      | task_update # q \<Rightarrow>
          if unfinished s \<le> 0
          then Some (s\<lparr>queue := q, acc := Raised ValueError\<rparr>)
          else (let updates' = updates @ [task_update];
                    s' = s\<lparr>queue := q, unfinished := unfinished s - 1\<rparr>
                in if length updates' < MAX_BATCH
                   then Some (s'\<lparr>acc := Waiting updates' (now s)\<rparr>)
                   else Some (after_collect updates' s')))"
| "acc_step (Waiting updates t0) TimedOut s =
     (if queue s = [] \<and> t0 + T_idle \<le> now s then Some (after_collect updates s)
      else None)"
| "acc_step (AtBegin updates) (Db ok) s =
     (if ok then Some (s\<lparr>txn := Some (committed s), acc := InTxn updates updates\<rparr>)
      else Some (s\<lparr>txn := None, acc := Raised SqliteError\<rparr>))"
| "acc_step (InTxn updates (u # rest)) (Db ok) s =
     (if ok then Some (s\<lparr>txn := map_option (sql_update u) (txn s), acc := InTxn updates rest\<rparr>)
      else Some (s\<lparr>txn := None, acc := Raised SqliteError\<rparr>))"
| "acc_step (InTxn updates []) (Db ok) s =
     (if ok
      then Some (s\<lparr>committed := (case txn s of Some t \<Rightarrow> t | None \<Rightarrow> committed s),
                   txn := None,
                   flushed := flushed s @ [updates],
                   logged := logged s @ [LogBatch (length updates)],
                   acc := Waiting [] (now s)\<rparr>)
      else Some (s\<lparr>txn := None, acc := Raised SqliteError\<rparr>))"
| "acc_step _ _ s = None"

definition async_update_batch :: "acc_input \<Rightarrow> state \<Rightarrow> state option" where
  "async_update_batch a s = acc_step (acc s) a s"

subsection \<open>main\<close>

text \<open>\<^verbatim>\<open>batch_update_task.cancel()\<close>: a task that has ended is left alone; otherwise
  \<^verbatim>\<open>CancelledError\<close> is raised at the await where the task is suspended.\<close>

definition cancel :: "state \<Rightarrow> state" where
  "cancel s =
     (case acc s of
        Raised e \<Rightarrow> s
      | _ \<Rightarrow> s\<lparr>txn := None, acc := Raised CancelledError\<rparr>)"

text \<open>\<^verbatim>\<open>await asyncio.gather(*tasks)\<close> returns when every worker has ended, and raises
  the first exception a worker raised; \<^verbatim>\<open>main\<close> then ends and \<^verbatim>\<open>asyncio.run\<close> cancels
  what is left.\<close>

definition main_gather :: "state \<Rightarrow> state option" where
  "main_gather s =
     (if mainpc s = MGather
      then (case raised s of
              e # _ \<Rightarrow> Some ((cancel s)\<lparr>sleeping := [], mainpc := MFailed e\<rparr>)
            | [] \<Rightarrow> if sleeping s = [] then Some (s\<lparr>mainpc := MJoin\<rparr>) else None)
      else None)"

text \<open>\<^verbatim>\<open>await update_queue.join()\<close> returns once the unfinished counter is 0; the
  cancel and the log line follow with no await in between.\<close>

definition main_join :: "state \<Rightarrow> state option" where
  "main_join s =
     (if mainpc s = MJoin \<and> unfinished s = 0
      then (let s' = cancel s
            in Some (s'\<lparr>mainpc := MDone, logged := logged s' @ [LogAllProcessed]\<rparr>))
      else None)"

text \<open>
  The state when \<^verbatim>\<open>main\<close> first suspends (in \<^verbatim>\<open>gather\<close>), for \<open>n\<close> tasks and the content
  \<open>file\<close> of \<^verbatim>\<open>tasks.db\<close> (\<open>None\<close>: no table yet): the table is set up and seeded, the
  accumulator is connecting, every worker has logged its start and sleeps.
  The source is the instance \<open>n = N_TASKS\<close>.
\<close>

definition main_start :: "nat \<Rightarrow> tasks_table option \<Rightarrow> state" where
  "main_start n file =
     \<lparr>now = 0, queue = [], unfinished = 0, sleeping = [1..<Suc n], raised = [],
      acc = Connecting, committed = populate_tasks n (setup_database file), txn = None,
      mainpc = MGather,
      logged = [LogMainStart, LogDbSetup, LogPopulated] @ map LogTaskStart [1..<Suc n],
      flushed = []\<rparr>"

definition main :: "tasks_table option \<Rightarrow> state" where
  "main file = main_start N_TASKS file"

subsection \<open>Steps and runs\<close>

text \<open>Time passes only while no timer is due: a pending \<^verbatim>\<open>wait_for\<close> fires when its
  5 time units are over.\<close>

definition tick :: "real \<Rightarrow> state \<Rightarrow> state option" where
  "tick d s =
     (if 0 < d \<and> (case acc s of Waiting u t0 \<Rightarrow> now s + d \<le> t0 + T_idle | _ \<Rightarrow> True)
      then Some (s\<lparr>now := now s + d\<rparr>) else None)"

fun step :: "event \<Rightarrow> state \<Rightarrow> state option" where
  "step (Tick d) s = tick d s"
| "step (Worker i cpu_percent rss) s = worker_step i cpu_percent rss s"
| "step (Acc a) s = async_update_batch a s"
| "step MainGather s = main_gather s"
| "step MainJoin s = main_join s"

fun run :: "event list \<Rightarrow> state \<Rightarrow> state option" where
  "run [] s = Some s"
| "run (e # es) s = (case step e s of None \<Rightarrow> None | Some s' \<Rightarrow> run es s')"

subsection \<open>Example states\<close>

text \<open>A run of two tasks on a new database, up to the point where the idle timeout
  has closed the batch of both updates and the transaction is about to begin.\<close>

definition two_task_batch :: state where
  "two_task_batch =
     the (run [Acc (Db True), Tick (1 / 10), Worker 1 (Inr 1) (Inr 1048576),
               Worker 2 (Inr 2) (Inr 2097152), Acc Got, Acc Got, Tick 5, Acc TimedOut]
            (main_start 2 None))"

text \<open>The same run on a database file whose table already holds one row, with id 2:
  the seeded rows get the ids 3 and 4, and no row has the id 1 of the first task.\<close>

definition gap_table_batch :: state where
  "gap_table_batch =
     the (run [Acc (Db True), Tick (1 / 10), Worker 1 (Inr 1) (Inr 1048576),
               Worker 2 (Inr 2) (Inr 2097152), Acc Got, Acc Got, Tick 5, Acc TimedOut]
            (main_start 2
               (Some [\<lparr>row_id = 2, status = Pending, cpu_usage = 0, memory_usage = 0\<rparr>])))"

subsection \<open>Invariants\<close>

text \<open>The unfinished counter is the number of queued items (\<^verbatim>\<open>task_done()\<close> follows every
  \<^verbatim>\<open>get\<close> at once), and every queued item comes from a worker that no longer sleeps.\<close>

definition queue_inv :: "nat \<Rightarrow> state \<Rightarrow> bool" where
  "queue_inv n s =
     (unfinished s = length (queue s) \<and> length (queue s) + length (sleeping s) \<le> n)"


text \<open>
  The updates published by a schedule: one per worker event whose two readings
  succeed. A row is as seeded (pending, both usage fields 0) or completed with the
  usage values of a published update for its id. The rows that \<^verbatim>\<open>populate_tasks\<close> seeds
  are those with an id above the largest id the table had before.
\<close>

fun published :: "event list \<Rightarrow> task_update list" where
  "published [] = []"
| "published (Worker i (Inr c) (Inr b) # es) = (i, c, real b / (1024 * 1024)) # published es"
| "published (e # es) = published es"

definition row_ok :: "task_update set \<Rightarrow> task_row \<Rightarrow> bool" where
  "row_ok P r =
     (status r = Pending \<and> cpu_usage r = 0 \<and> memory_usage r = 0
      \<or> status r = Completed \<and> (row_id r, cpu_usage r, memory_usage r) \<in> P)"

definition table_ok :: "nat \<Rightarrow> task_update set \<Rightarrow> tasks_table \<Rightarrow> bool" where
  "table_ok lo P t = (\<forall>r \<in> set t. lo < row_id r \<longrightarrow> row_ok P r)"

fun held :: "acc_pc \<Rightarrow> task_update set" where
  "held (Waiting u t0) = set u"
| "held (AtBegin u) = set u"
| "held (InTxn u rest) = set u \<union> set rest"
| "held _ = {}"

definition rows_inv :: "nat \<Rightarrow> task_update set \<Rightarrow> state \<Rightarrow> bool" where
  "rows_inv lo P s =
     (table_ok lo P (committed s)
      \<and> (case txn s of None \<Rightarrow> True | Some t \<Rightarrow> table_ok lo P t)
      \<and> set (queue s) \<subseteq> P \<and> held (acc s) \<subseteq> P)"

definition never_reverts :: "tasks_table \<Rightarrow> tasks_table \<Rightarrow> bool" where
  "never_reverts t t' =
     list_all2 (\<lambda>r r'. row_id r' = row_id r \<and> (status r = Completed \<longrightarrow> status r' = Completed)) t t'"

definition txn_inv :: "state \<Rightarrow> bool" where
  "txn_inv s = (case txn s of None \<Rightarrow> True | Some t \<Rightarrow> never_reverts (committed s) t)"

fun pub_of :: "event \<Rightarrow> task_update set" where
  "pub_of (Worker i (Inr c) (Inr b)) = {(i, c, real b / (1024 * 1024))}"
| "pub_of _ = {}"

text \<open>The states a schedule visits, and how often the row at position \<open>k\<close> of the
  stored table goes from pending to completed along them.\<close>

fun states :: "event list \<Rightarrow> state \<Rightarrow> state list" where
  "states [] s = [s]"
| "states (e # es) s = s # (case step e s of None \<Rightarrow> [] | Some s' \<Rightarrow> states es s')"

fun completions :: "nat \<Rightarrow> state list \<Rightarrow> nat" where
  "completions k (a # b # tr) =
     (if status (committed a ! k) = Pending \<and> status (committed b ! k) = Completed
      then 1 else 0) + completions k (b # tr)"
| "completions k tr = 0"






text \<open>
  A run of \<^verbatim>\<open>main\<close> with no fault and no idle timeout: the connection is made, the
  sleep of 0.1 passes, the 1000 workers publish (every reading succeeds), \<^verbatim>\<open>gather\<close>
  returns and \<^verbatim>\<open>main\<close> waits in \<^verbatim>\<open>join\<close>; nine times the accumulator receives 100 updates
  and flushes them (\<^verbatim>\<open>BEGIN\<close>, 100 updates, \<^verbatim>\<open>commit\<close>); it receives the last 100, calling
  \<^verbatim>\<open>task_done()\<close> for each, and is suspended at \<^verbatim>\<open>BEGIN\<close> when \<^verbatim>\<open>main\<close>, whose \<^verbatim>\<open>join\<close>
  was released by the last \<^verbatim>\<open>task_done()\<close>, runs next.
\<close>

definition nominal_run :: "event list" where
  "nominal_run =
     [Acc (Db True), Tick SLEEP]
     @ map (\<lambda>i. Worker i (Inr 1) (Inr 1048576)) [1..<Suc N_TASKS]
     @ [MainGather]
     @ concat (replicate 9
         (replicate MAX_BATCH (Acc Got) @ replicate (MAX_BATCH + 2) (Acc (Db True))))
     @ replicate MAX_BATCH (Acc Got)
     @ [MainJoin]"

section \<open>Basic facts\<close>

lemmas pipeline_defs =
  main_start_def async_update_batch_def tick_def worker_step_def process_task_def put_def
  main_gather_def main_join_def cancel_def T_idle_def SLEEP_def MAX_BATCH_def queue_full_def
  update_queue_maxsize_def after_collect_def setup_database_def insert_pending_def max_id_def

lemma run_append: "run (es @ fs) s = (case run es s of None \<Rightarrow> None | Some s' \<Rightarrow> run fs s')"
  by (induction es arbitrary: s) (auto split: option.splits)

lemma run_snoc: "run (es @ [e]) s = (case run es s of None \<Rightarrow> None | Some s' \<Rightarrow> step e s')"
  by (simp add: run_append split: option.splits)

lemma run_invariant:
  assumes "run es s = Some s'" and "P s"
    and "\<And>e a b. P a \<Longrightarrow> step e a = Some b \<Longrightarrow> P b"
  shows "P s'"
  using assms(1,2)
proof (induction es arbitrary: s)
  case Nil
  then show ?case by simp
next
  case (Cons e es)
  then show ?case by (auto split: option.splits intro: assms(3))
qed

lemma map_row_id_sql_update: "map row_id (sql_update u t) = map row_id t"
  by (cases u) (simp add: comp_def)

lemma map_row_id_fold: "map row_id (fold sql_update us t) = map row_id t"
  by (induction us arbitrary: t) (simp_all add: map_row_id_sql_update)

lemma sql_update_unmatched: "fst u \<notin> row_id ` set t \<Longrightarrow> sql_update u t = t"
  by (cases u) (auto intro!: map_idI)

lemma fold_sql_update_unmatched:
  "i \<notin> row_id ` set t \<Longrightarrow>
   fold sql_update us t = fold sql_update (filter (\<lambda>u. fst u \<noteq> i) us) t"
proof (induction us arbitrary: t)
  case Nil
  then show ?case by simp
next
  case (Cons u us)
  have ids: "row_id ` set (sql_update u t) = row_id ` set t"
    using map_row_id_sql_update [of u t] by (metis list.set_map)
  show ?case
  proof (cases "fst u = i")
    case True
    with Cons.prems have "sql_update u t = t" by (simp add: sql_update_unmatched)
    with True Cons show ?thesis by simp
  next
    case False
    with Cons.prems ids Cons.IH [of "sql_update u t"] show ?thesis by simp
  qed
qed

lemma txn_updates:
  "acc s = InTxn u rest \<Longrightarrow> j \<le> length rest \<Longrightarrow>
   run (replicate j (Acc (Db True))) s =
     Some (s\<lparr>txn := map_option (fold sql_update (take j rest)) (txn s),
              acc := InTxn u (drop j rest)\<rparr>)"
proof (induction j arbitrary: s rest)
  case 0
  then show ?case by (simp add: option.map_ident)
next
  case (Suc j)
  then obtain r rest' where rest: "rest = r # rest'" by (cases rest) auto
  let ?s1 = "s\<lparr>txn := map_option (sql_update r) (txn s), acc := InTxn u rest'\<rparr>"
  have st: "async_update_batch (Db True) s = Some ?s1"
    using Suc.prems rest by (simp add: async_update_batch_def)
  have "run (replicate j (Acc (Db True))) ?s1 =
     Some (?s1\<lparr>txn := map_option (fold sql_update (take j rest')) (txn ?s1),
              acc := InTxn u (drop j rest')\<rparr>)"
    using Suc.prems rest by (intro Suc.IH) auto
  with st rest show ?case by (simp add: option.map_comp comp_def)
qed

lemma flush_commits:
  assumes "acc s = AtBegin u"
  shows "run (replicate (length u + 2) (Acc (Db True))) s =
     Some (s\<lparr>committed := fold sql_update u (committed s), txn := None,
              flushed := flushed s @ [u], logged := logged s @ [LogBatch (length u)],
              acc := Waiting [] (now s)\<rparr>)"
proof -
  let ?s1 = "s\<lparr>txn := Some (committed s), acc := InTxn u u\<rparr>"
  have sched: "replicate (length u + 2) (Acc (Db True)) =
      Acc (Db True) # replicate (length u) (Acc (Db True)) @ [Acc (Db True)]"
    by (simp add: replicate_append_same)
  have s1: "async_update_batch (Db True) s = Some ?s1"
    using assms by (simp add: async_update_batch_def)
  have s2: "run (replicate (length u) (Acc (Db True))) ?s1 =
      Some (?s1\<lparr>txn := map_option (fold sql_update (take (length u) u)) (txn ?s1),
              acc := InTxn u (drop (length u) u)\<rparr>)"
    by (rule txn_updates) simp_all
  show ?thesis
  proof -
    have s3: "async_update_batch (Db True) (?s1\<lparr>txn := map_option (fold sql_update (take (length u) u)) (txn ?s1),
              acc := InTxn u (drop (length u) u)\<rparr>) = Some (s\<lparr>committed := fold sql_update u (committed s), txn := None,
              flushed := flushed s @ [u], logged := logged s @ [LogBatch (length u)],
              acc := Waiting [] (now s)\<rparr>)"
      by (simp add: async_update_batch_def)
    show ?thesis
      unfolding sched using s3 by (simp add: s1 run_append s2)
  qed
qed

lemma flush_fault:
  assumes "acc s = AtBegin u" and "k \<le> length u + 1"
  shows "run (replicate k (Acc (Db True)) @ [Acc (Db False)]) s =
     Some (s\<lparr>txn := None, acc := Raised SqliteError\<rparr>)"
proof (cases k)
  case 0
  with assms show ?thesis by (simp add: async_update_batch_def)
next
  case (Suc j)
  let ?s1 = "s\<lparr>txn := Some (committed s), acc := InTxn u u\<rparr>"
  have s1: "async_update_batch (Db True) s = Some ?s1"
    using assms by (simp add: async_update_batch_def)
  have s2: "run (replicate j (Acc (Db True))) ?s1 =
      Some (?s1\<lparr>txn := map_option (fold sql_update (take j u)) (txn ?s1),
              acc := InTxn u (drop j u)\<rparr>)"
    using assms Suc by (intro txn_updates) simp_all
  have s3: "async_update_batch (Db False) (?s1\<lparr>txn := map_option (fold sql_update (take j u)) (txn ?s1),
              acc := InTxn u (drop j u)\<rparr>) = Some (s\<lparr>txn := None, acc := Raised SqliteError\<rparr>)"
    by (cases "drop j u") (simp_all add: async_update_batch_def)
  show ?thesis
    using Suc s3 by (simp add: s1 run_append s2)
qed

lemma flush_prefix:
  assumes "acc s = AtBegin u" and "k \<le> length u + 1"
  shows "map_option committed (run (replicate k (Acc (Db True))) s) = Some (committed s)"
proof (cases k)
  case 0
  then show ?thesis by simp
next
  case (Suc j)
  let ?s1 = "s\<lparr>txn := Some (committed s), acc := InTxn u u\<rparr>"
  have s1: "async_update_batch (Db True) s = Some ?s1"
    using assms by (simp add: async_update_batch_def)
  have s2: "run (replicate j (Acc (Db True))) ?s1 =
      Some (?s1\<lparr>txn := map_option (fold sql_update (take j u)) (txn ?s1),
              acc := InTxn u (drop j u)\<rparr>)"
    using assms Suc by (intro txn_updates) simp_all
  show ?thesis
    using Suc by (simp add: s1 s2)
qed

lemma two_task_batch_eq:
  "two_task_batch =
     \<lparr>now = 51 / 10, queue = [], unfinished = 0, sleeping = [], raised = [],
      acc = AtBegin [(1, 1, 1), (2, 2, 2)],
      committed = [\<lparr>row_id = 1, status = Pending, cpu_usage = 0, memory_usage = 0\<rparr>,
                   \<lparr>row_id = 2, status = Pending, cpu_usage = 0, memory_usage = 0\<rparr>],
      txn = None, mainpc = MGather,
      logged = [LogMainStart, LogDbSetup, LogPopulated, LogTaskStart 1, LogTaskStart 2,
                LogTaskCompleted 1 1 1, LogTaskCompleted 2 2 2],
      flushed = []\<rparr>"
  by (simp add: two_task_batch_def pipeline_defs numeral_2_eq_2 upt_conv_Cons)


lemma gap_table_batch_eq:
  "gap_table_batch =
     \<lparr>now = 51 / 10, queue = [], unfinished = 0, sleeping = [], raised = [],
      acc = AtBegin [(1, 1, 1), (2, 2, 2)],
      committed = [\<lparr>row_id = 2, status = Pending, cpu_usage = 0, memory_usage = 0\<rparr>,
                   \<lparr>row_id = 3, status = Pending, cpu_usage = 0, memory_usage = 0\<rparr>,
                   \<lparr>row_id = 4, status = Pending, cpu_usage = 0, memory_usage = 0\<rparr>],
      txn = None, mainpc = MGather,
      logged = [LogMainStart, LogDbSetup, LogPopulated, LogTaskStart 1, LogTaskStart 2,
                LogTaskCompleted 1 1 1, LogTaskCompleted 2 2 2],
      flushed = []\<rparr>"
  by (simp add: gap_table_batch_def pipeline_defs numeral_2_eq_2 upt_conv_Cons)

lemma set_row_id_fold: "row_id ` set (fold sql_update us t) = row_id ` set t"
  using map_row_id_fold [of us t] by (metis list.set_map)


lemma raised_stays:
  assumes "step e a = Some b" and "acc a = Raised x"
  shows "acc b = Raised x \<and> flushed b = flushed a \<and> committed b = committed a
         \<and> [m \<leftarrow> logged b. \<exists>k. m = LogBatch k] = [m \<leftarrow> logged a. \<exists>k. m = LogBatch k]"
proof (cases e)
  case (Tick d)
  with assms show ?thesis by (auto simp: tick_def split: if_splits)
next
  case (Worker i c r)
  with assms show ?thesis
    by (auto simp: worker_step_def process_task_def put_def Let_def
        split: if_splits sum.splits)
next
  case (Acc i)
  with assms show ?thesis by (simp add: async_update_batch_def)
next
  case MainGather
  with assms show ?thesis
    by (auto simp: main_gather_def cancel_def split: if_splits list.splits)
next
  case MainJoin
  with assms show ?thesis
    by (auto simp: main_join_def cancel_def Let_def split: if_splits)
qed

lemma raised_stays_run:
  assumes "run es a = Some b" and "acc a = Raised x"
  shows "acc b = Raised x \<and> flushed b = flushed a \<and> committed b = committed a
         \<and> [m \<leftarrow> logged b. \<exists>k. m = LogBatch k] = [m \<leftarrow> logged a. \<exists>k. m = LogBatch k]"
  using assms
proof (induction es arbitrary: a)
  case Nil
  then show ?case by simp
next
  case (Cons e es)
  then obtain a' where a': "step e a = Some a'" "run es a' = Some b"
    by (auto split: option.splits)
  from raised_stays [OF a'(1) Cons.prems(2)] Cons.IH [OF a'(2)] show ?case by simp
qed


lemma acc_step_InTxn:
  "acc_step (InTxn u rest) (Db ok) s =
     (if ok
      then (case rest of
              [] \<Rightarrow> Some (s\<lparr>committed := (case txn s of Some t \<Rightarrow> t | None \<Rightarrow> committed s),
                   txn := None,
                   flushed := flushed s @ [u],
                   logged := logged s @ [LogBatch (length u)],
                   acc := Waiting [] (now s)\<rparr>)
            | r # rest' \<Rightarrow> Some (s\<lparr>txn := map_option (sql_update r) (txn s), acc := InTxn u rest'\<rparr>))
      else Some (s\<lparr>txn := None, acc := Raised SqliteError\<rparr>))"
  by (cases rest) simp_all

lemma queue_inv_step:
  assumes "step e a = Some b" and "queue_inv n a"
  shows "queue_inv n b"
proof (cases e)
  case (Tick d)
  with assms show ?thesis by (auto simp: tick_def queue_inv_def split: if_splits)
next
  case (Worker i c r)
  have "i \<in> set (sleeping a) \<Longrightarrow> length (removeAll i (sleeping a)) < length (sleeping a)"
    by (rule length_removeAll_less)
  with Worker assms show ?thesis
    by (auto simp: worker_step_def process_task_def put_def Let_def queue_inv_def
        split: if_splits sum.splits)
next
  case (Acc i)
  with assms show ?thesis
    by (cases "acc a"; cases i)
       (auto simp: async_update_batch_def acc_step_InTxn after_collect_def Let_def queue_inv_def
        split: if_splits list.splits)
next
  case MainGather
  with assms show ?thesis
    by (auto simp: main_gather_def cancel_def queue_inv_def
        split: if_splits list.splits acc_pc.splits)
next
  case MainJoin
  with assms show ?thesis
    by (auto simp: main_join_def cancel_def Let_def queue_inv_def
        split: if_splits acc_pc.splits)
qed

lemma queue_inv_start: "queue_inv n (main_start n file)"
  by (simp add: queue_inv_def main_start_def)

lemma queue_inv_run:
  assumes "run es (main_start n file) = Some s"
  shows "queue_inv n s"
  using assms queue_inv_start
  by (rule run_invariant) (rule queue_inv_step)

lemma set_fold_removeAll: "set (fold removeAll ids xs) = set xs - set ids"
  by (induction ids arbitrary: xs) auto

lemma workers_publish:
  assumes "distinct ids" and "set ids \<subseteq> set (sleeping s)" and "SLEEP \<le> now s"
  shows "run (map (\<lambda>i. Worker i (Inr (c i)) (Inr (b i))) ids) s =
     Some (s\<lparr>queue := queue s @ map (\<lambda>i. (i, c i, real (b i) / (1024 * 1024))) ids,
              unfinished := unfinished s + length ids,
              logged := logged s @
                map (\<lambda>i. LogTaskCompleted i (c i) (real (b i) / (1024 * 1024))) ids,
              sleeping := fold removeAll ids (sleeping s)\<rparr>)"
  using assms
proof (induction ids arbitrary: s)
  case Nil
  then show ?case by simp
next
  case (Cons i ids)
  let ?s1 = "s\<lparr>queue := queue s @ [(i, c i, real (b i) / (1024 * 1024))],
                unfinished := unfinished s + 1,
                logged := logged s @ [LogTaskCompleted i (c i) (real (b i) / (1024 * 1024))],
                sleeping := removeAll i (sleeping s)\<rparr>"
  have st: "worker_step i (Inr (c i)) (Inr (b i)) s = Some ?s1"
    using Cons.prems
    by (simp add: worker_step_def process_task_def put_def Let_def queue_full_def
        update_queue_maxsize_def)
  have "run (map (\<lambda>i. Worker i (Inr (c i)) (Inr (b i))) ids) ?s1 =
     Some (?s1\<lparr>queue := queue ?s1 @ map (\<lambda>i. (i, c i, real (b i) / (1024 * 1024))) ids,
              unfinished := unfinished ?s1 + length ids,
              logged := logged ?s1 @
                map (\<lambda>i. LogTaskCompleted i (c i) (real (b i) / (1024 * 1024))) ids,
              sleeping := fold removeAll ids (sleeping ?s1)\<rparr>)"
    using Cons.prems by (intro Cons.IH) auto
  with st show ?case by simp
qed

lemma all_published_at_once:
  "run (Tick SLEEP # map (\<lambda>i. Worker i (Inr 1) (Inr 1048576)) [1..<Suc n]) (main_start n file) =
     Some ((main_start n file)\<lparr>now := SLEEP,
            queue := map (\<lambda>i. (i, 1, 1)) [1..<Suc n], unfinished := n,
            logged := logged (main_start n file) @ map (\<lambda>i. LogTaskCompleted i 1 1) [1..<Suc n],
            sleeping := []\<rparr>)"
proof -
  let ?s0 = "(main_start n file)\<lparr>now := SLEEP\<rparr>"
  have t: "tick SLEEP (main_start n file) = Some ?s0"
    by (simp add: tick_def main_start_def SLEEP_def)
  have e: "fold removeAll [1..<Suc n] (sleeping ?s0) = []"
    using set_fold_removeAll [of "[1..<Suc n]" "sleeping ?s0"] by (simp add: main_start_def)
  have "run (map (\<lambda>i. Worker i (Inr ((\<lambda>_. 1) i)) (Inr ((\<lambda>_. 1048576) i))) [1..<Suc n]) ?s0 =
     Some (?s0\<lparr>queue := queue ?s0 @ map (\<lambda>i. (i, (\<lambda>_. 1) i, real ((\<lambda>_. 1048576) i) / (1024 * 1024))) [1..<Suc n],
              unfinished := unfinished ?s0 + length [1..<Suc n],
              logged := logged ?s0 @
                map (\<lambda>i. LogTaskCompleted i ((\<lambda>_. 1) i) (real ((\<lambda>_. 1048576) i) / (1024 * 1024))) [1..<Suc n],
              sleeping := fold removeAll [1..<Suc n] (sleeping ?s0)\<rparr>)"
    by (rule workers_publish) (simp_all add: main_start_def)
  then show ?thesis
    using t e by (simp add: main_start_def)
qed



lemma row_ok_mono: "row_ok P r \<Longrightarrow> P \<subseteq> Q \<Longrightarrow> row_ok Q r"
  by (auto simp: row_ok_def)

lemma table_ok_mono: "table_ok lo P t \<Longrightarrow> P \<subseteq> Q \<Longrightarrow> table_ok lo Q t"
  by (auto simp: table_ok_def intro: row_ok_mono)

lemma table_ok_sql_update:
  assumes "table_ok lo P t" and "u \<in> P"
  shows "table_ok lo P (sql_update u t)"
proof (cases u)
  case (fields i c m)
  with assms show ?thesis
    by (auto simp: table_ok_def row_ok_def)
qed

lemma rows_inv_mono: "rows_inv lo P s \<Longrightarrow> P \<subseteq> Q \<Longrightarrow> rows_inv lo Q s"
  by (auto simp: rows_inv_def intro: table_ok_mono split: option.splits)

lemma published_Cons: "set (published (e # es)) = pub_of e \<union> set (published es)"
  by (cases "(e # es)" rule: published.cases) auto

lemma rows_inv_step:
  assumes "step e a = Some b" and "rows_inv lo P a"
  shows "rows_inv lo (P \<union> pub_of e) b"
proof (cases e)
  case (Tick d)
  with assms show ?thesis by (auto simp: tick_def rows_inv_def split: if_splits)
next
  case (Worker i c r)
  have m: "rows_inv lo (P \<union> pub_of e) a"
    using assms(2) by (rule rows_inv_mono) auto
  with Worker assms(1) show ?thesis
    by (auto simp: worker_step_def process_task_def put_def Let_def rows_inv_def
        split: if_splits sum.splits)
next
  case (Acc i)
  with assms show ?thesis
    by (cases "acc a"; cases i)
       (auto simp: async_update_batch_def acc_step_InTxn after_collect_def Let_def rows_inv_def
          table_ok_sql_update
        simp del: sql_update.simps
        split: if_splits list.splits option.splits)
next
  case MainGather
  with assms show ?thesis
    by (auto simp: main_gather_def cancel_def rows_inv_def
        split: if_splits list.splits acc_pc.splits)
next
  case MainJoin
  with assms show ?thesis
    by (auto simp: main_join_def cancel_def Let_def rows_inv_def
        split: if_splits acc_pc.splits)
qed

lemma rows_inv_run:
  assumes "run es a = Some b" and "rows_inv lo P a"
  shows "rows_inv lo (P \<union> set (published es)) b"
  using assms
proof (induction es arbitrary: a P)
  case Nil
  then show ?case by simp
next
  case (Cons e es)
  then obtain a' where a': "step e a = Some a'" "run es a' = Some b"
    by (auto split: option.splits)
  have "rows_inv lo ((P \<union> pub_of e) \<union> set (published es)) b"
    using a'(2) rows_inv_step [OF a'(1) Cons.prems(2)] by (rule Cons.IH)
  then show ?case by (simp add: published_Cons Un_assoc)
qed

lemma never_reverts_refl: "never_reverts t t"
  by (simp add: never_reverts_def list_all2_same)

lemma never_reverts_trans:
  "never_reverts t t' \<Longrightarrow> never_reverts t' t'' \<Longrightarrow> never_reverts t t''"
proof -
  assume a: "never_reverts t t'" and b: "never_reverts t' t''"
  show ?thesis
    unfolding never_reverts_def
    by (rule list_all2_trans [OF _ a [unfolded never_reverts_def] b [unfolded never_reverts_def]])
       auto
qed

lemma never_reverts_sql_update: "never_reverts t (sql_update u t)"
  by (cases u) (simp add: never_reverts_def list_all2_map2 list_all2_same)

lemma lifecycle_step:
  assumes "step e a = Some b" and "txn_inv a"
  shows "never_reverts (committed a) (committed b) \<and> txn_inv b"
proof (cases e)
  case (Tick d)
  with assms show ?thesis
    by (auto simp: tick_def txn_inv_def never_reverts_refl split: if_splits option.splits)
next
  case (Worker i c r)
  with assms show ?thesis
    by (auto simp: worker_step_def process_task_def put_def Let_def txn_inv_def never_reverts_refl
        split: if_splits sum.splits option.splits)
next
  case (Acc i)
  with assms show ?thesis
    by (cases "acc a"; cases i)
       (auto simp: async_update_batch_def acc_step_InTxn after_collect_def Let_def txn_inv_def
          never_reverts_refl
        simp del: sql_update.simps
        intro: never_reverts_trans [OF _ never_reverts_sql_update]
        split: if_splits list.splits option.splits)
next
  case MainGather
  with assms show ?thesis
    by (auto simp: main_gather_def cancel_def txn_inv_def never_reverts_refl
        split: if_splits list.splits acc_pc.splits option.splits)
next
  case MainJoin
  with assms show ?thesis
    by (auto simp: main_join_def cancel_def Let_def txn_inv_def never_reverts_refl
        split: if_splits acc_pc.splits option.splits)
qed

lemma lifecycle_run:
  assumes "run es a = Some b" and "txn_inv a"
  shows "never_reverts (committed a) (committed b) \<and> txn_inv b"
  using assms
proof (induction es arbitrary: a)
  case Nil
  then show ?case by (simp add: never_reverts_refl)
next
  case (Cons e es)
  then obtain a' where a': "step e a = Some a'" "run es a' = Some b"
    by (auto split: option.splits)
  from lifecycle_step [OF a'(1) Cons.prems(2)] Cons.IH [OF a'(2)]
  show ?case by (blast intro: never_reverts_trans)
qed

lemma max_id_append: "max_id (t @ t') = max (max_id t) (max_id t')"
  by (induction t) (simp_all add: max_id_def)

lemma max_id_ge: "r \<in> set t \<Longrightarrow> row_id r \<le> max_id t"
  by (induction t) (auto simp: max_id_def)

lemma populate_rows:
  "r \<in> set (populate_tasks n t) \<Longrightarrow>
   r \<in> set t \<or> status r = Pending \<and> cpu_usage r = 0 \<and> memory_usage r = 0"
proof (induction n arbitrary: t)
  case 0
  then show ?case by simp
next
  case (Suc n)
  from Suc.prems have "r \<in> set (populate_tasks n (insert_pending t))" by simp
  from Suc.IH [OF this] show ?case by (auto simp: insert_pending_def)
qed

lemma populate_ids:
  "map row_id (populate_tasks n t) = map row_id t @ [max_id t + 1..<max_id t + 1 + n]"
proof (induction n arbitrary: t)
  case 0
  then show ?case by simp
next
  case (Suc n)
  have m: "max_id (insert_pending t) = max_id t + 1"
    by (simp add: insert_pending_def max_id_append) (simp add: max_id_def)
  have "[max_id t + 1..<max_id t + 1 + Suc n] = (max_id t + 1) # [max_id t + 2..<max_id t + 2 + n]"
    by (simp add: upt_conv_Cons)
  then show ?case
    by (simp add: Suc.IH m) (simp add: insert_pending_def)
qed

lemma rows_inv_start: "rows_inv (max_id (setup_database file)) {} (main_start n file)"
proof -
  have "table_ok (max_id (setup_database file)) {}
          (populate_tasks n (setup_database file))"
    unfolding table_ok_def row_ok_def
    using populate_rows [of _ n "setup_database file"] max_id_ge [of _ "setup_database file"]
    by (metis leD)
  then show ?thesis
    by (simp add: rows_inv_def main_start_def)
qed

lemma txn_inv_start: "txn_inv (main_start n file)"
  by (simp add: txn_inv_def main_start_def)

lemma states_hd: "\<exists>tr. states es s = s # tr"
  by (cases es) simp_all

lemma never_reverts_nth:
  assumes "never_reverts t t'" and "k < length t"
  shows "k < length t' \<and> row_id (t' ! k) = row_id (t ! k)
         \<and> (status (t ! k) = Completed \<longrightarrow> status (t' ! k) = Completed)"
  using assms unfolding never_reverts_def
  by (auto dest: list_all2_lengthD list_all2_nthD)

lemma completions_bound:
  assumes "txn_inv s" and "k < length (committed s)"
  shows "completions k (states es s) \<le> (if status (committed s ! k) = Completed then 0 else 1)"
  using assms
proof (induction es arbitrary: s)
  case Nil
  then show ?case by simp
next
  case (Cons e es)
  show ?case
  proof (cases "step e s")
    case None
    then show ?thesis by simp
  next
    case (Some s')
    obtain tr where tr: "states es s' = s' # tr"
      using states_hd by blast
    from lifecycle_step [OF Some Cons.prems(1)]
    have nr: "never_reverts (committed s) (committed s')" and ti: "txn_inv s'"
      by simp_all
    from never_reverts_nth [OF nr Cons.prems(2)]
    have k': "k < length (committed s')"
      and mono: "status (committed s ! k) = Completed \<longrightarrow> status (committed s' ! k) = Completed"
      by simp_all
    have ih: "completions k (s' # tr) \<le> (if status (committed s' ! k) = Completed then 0 else 1)"
      using Cons.IH [OF ti k'] tr by simp
    show ?thesis
    proof (cases "status (committed s ! k)")
      case Pending
      with ih Some tr show ?thesis by (auto split: if_splits)
    next
      case Completed
      with mono ih Some tr show ?thesis by simp
    qed
  qed
qed

lemma never_reverts_ids: "never_reverts t t' \<Longrightarrow> map row_id t' = map row_id t"
  unfolding never_reverts_def
  by (induction t t' rule: list_all2_induct) simp_all

lemma gets_fill:
  assumes "acc s = Waiting u t0" and "queue s = xs @ q" and "xs \<noteq> []"
    and "length u + length xs = MAX_BATCH" and "length xs \<le> unfinished s"
  shows "run (replicate (length xs) (Acc Got)) s =
     Some (s\<lparr>queue := q, unfinished := unfinished s - length xs, acc := AtBegin (u @ xs)\<rparr>)"
  using assms
proof (induction xs arbitrary: s u t0)
  case Nil
  then show ?case by simp
next
  case (Cons x xs)
  show ?case
  proof (cases "xs = []")
    case True
    with Cons.prems show ?thesis
      by (simp add: async_update_batch_def after_collect_def Let_def)
  next
    case False
    let ?s1 = "s\<lparr>queue := xs @ q, unfinished := unfinished s - 1, acc := Waiting (u @ [x]) (now s)\<rparr>"
    have lt: "Suc (length u) < MAX_BATCH"
      using Cons.prems(4) False by (cases xs) auto
    have st: "async_update_batch Got s = Some ?s1"
      using Cons.prems lt by (simp add: async_update_batch_def Let_def)
    have "run (replicate (length xs) (Acc Got)) ?s1 =
       Some (?s1\<lparr>queue := q, unfinished := unfinished ?s1 - length xs,
                 acc := AtBegin ((u @ [x]) @ xs)\<rparr>)"
      using Cons.prems False by (intro Cons.IH [where ?t0.0 = "now s"]) simp_all
    with st show ?thesis by simp
  qed
qed

lemma batch_round:
  assumes "acc s = Waiting [] t0" and "queue s = xs @ q" and "length xs = MAX_BATCH"
    and "length xs \<le> unfinished s"
  shows "run (replicate MAX_BATCH (Acc Got) @ replicate (MAX_BATCH + 2) (Acc (Db True))) s =
     Some (s\<lparr>queue := q, unfinished := unfinished s - MAX_BATCH,
              committed := fold sql_update xs (committed s), txn := None,
              flushed := flushed s @ [xs], logged := logged s @ [LogBatch MAX_BATCH],
              acc := Waiting [] (now s)\<rparr>)"
proof -
  let ?s1 = "s\<lparr>queue := q, unfinished := unfinished s - length xs, acc := AtBegin ([] @ xs)\<rparr>"
  have ne: "xs \<noteq> []" using assms(3) by (auto simp: MAX_BATCH_def)
  have g: "run (replicate (length xs) (Acc Got)) s = Some ?s1"
    using assms(1,2) ne _ assms(4) by (rule gets_fill) (simp add: assms(3))
  have a: "acc ?s1 = AtBegin xs" by simp
  have f: "run (replicate (length xs + 2) (Acc (Db True))) ?s1 =
     Some (?s1\<lparr>committed := fold sql_update xs (committed ?s1), txn := None,
              flushed := flushed ?s1 @ [xs], logged := logged ?s1 @ [LogBatch (length xs)],
              acc := Waiting [] (now ?s1)\<rparr>)"
    using a by (rule flush_commits)
  show ?thesis
    using g f by (simp add: run_append assms(3))
qed

lemma batch_rounds:
  assumes "acc s = Waiting [] t0" and "queue s = ys @ q" and "length ys = k * MAX_BATCH"
    and "length ys \<le> unfinished s"
  shows "\<exists>s' t bs.
     run (concat (replicate k
            (replicate MAX_BATCH (Acc Got) @ replicate (MAX_BATCH + 2) (Acc (Db True))))) s = Some s'
     \<and> acc s' = Waiting [] t \<and> queue s' = q \<and> unfinished s' = unfinished s - length ys
     \<and> committed s' = fold sql_update ys (committed s)
     \<and> flushed s' = flushed s @ bs \<and> length bs = k \<and> concat bs = ys
     \<and> list_all (\<lambda>b. length b = MAX_BATCH) bs
     \<and> mainpc s' = mainpc s \<and> sleeping s' = sleeping s \<and> raised s' = raised s"
  using assms
proof (induction k arbitrary: s ys t0)
  case 0
  then show ?case by simp
next
  case (Suc k)
  let ?round = "replicate MAX_BATCH (Acc Got) @ replicate (MAX_BATCH + 2) (Acc (Db True))"
  let ?xs = "take MAX_BATCH ys" and ?zs = "drop MAX_BATCH ys"
  let ?s1 = "s\<lparr>queue := ?zs @ q, unfinished := unfinished s - MAX_BATCH,
              committed := fold sql_update ?xs (committed s), txn := None,
              flushed := flushed s @ [?xs], logged := logged s @ [LogBatch MAX_BATCH],
              acc := Waiting [] (now s)\<rparr>"
  have lx: "length ?xs = MAX_BATCH" and lz: "length ?zs = k * MAX_BATCH"
    using Suc.prems(3) by simp_all
  have q: "queue s = ?xs @ (?zs @ q)"
    using Suc.prems(2) by simp
  have r1: "run ?round s = Some ?s1"
    using Suc.prems(1) q lx by (rule batch_round) (use Suc.prems(3,4) lx in simp)
  have "\<exists>s' t bs. run (concat (replicate k ?round)) ?s1 = Some s'
     \<and> acc s' = Waiting [] t \<and> queue s' = q \<and> unfinished s' = unfinished ?s1 - length ?zs
     \<and> committed s' = fold sql_update ?zs (committed ?s1)
     \<and> flushed s' = flushed ?s1 @ bs \<and> length bs = k \<and> concat bs = ?zs
     \<and> list_all (\<lambda>b. length b = MAX_BATCH) bs
     \<and> mainpc s' = mainpc ?s1 \<and> sleeping s' = sleeping ?s1 \<and> raised s' = raised ?s1"
    using lz Suc.prems(3,4) by (intro Suc.IH [where ?t0.0 = "now s"]) simp_all
  then obtain s' t bs where s': "run (concat (replicate k ?round)) ?s1 = Some s'"
    "acc s' = Waiting [] t" "queue s' = q" "unfinished s' = unfinished ?s1 - length ?zs"
    "committed s' = fold sql_update ?zs (committed ?s1)"
    "flushed s' = flushed ?s1 @ bs" "length bs = k" "concat bs = ?zs"
    "list_all (\<lambda>b. length b = MAX_BATCH) bs"
    "mainpc s' = mainpc ?s1" "sleeping s' = sleeping ?s1" "raised s' = raised ?s1"
    by blast
  have e: "concat (replicate (Suc k) ?round) = ?round @ concat (replicate k ?round)"
    by simp
  have run: "run (concat (replicate (Suc k) ?round)) s = Some s'"
    unfolding e run_append [of ?round "concat (replicate k ?round)" s] r1 option.case
    by (rule s'(1))
  have f: "fold sql_update ys (committed s) = fold sql_update ?zs (fold sql_update ?xs (committed s))"
    using fold_append [of sql_update ?xs ?zs] by simp
  have u: "unfinished s' = unfinished s - length ys"
    using s'(4) lz Suc.prems(3) by simp
  show ?case
    apply (rule exI [of _ s'], rule exI [of _ t], rule exI [of _ "?xs # bs"])
    using run s' f u lx by simp
qed

lemma populate_fresh:
  "populate_tasks n t =
     t @ map (\<lambda>i. \<lparr>row_id = i, status = Pending, cpu_usage = 0, memory_usage = 0\<rparr>)
           [max_id t + 1..<max_id t + 1 + n]"
proof (induction n arbitrary: t)
  case 0
  then show ?case by simp
next
  case (Suc n)
  have m: "max_id (insert_pending t) = max_id t + 1"
    by (simp add: insert_pending_def max_id_append) (simp add: max_id_def)
  have "[max_id t + 1..<max_id t + 1 + Suc n] = (max_id t + 1) # [max_id t + 2..<max_id t + 2 + n]"
    by (simp add: upt_conv_Cons)
  then show ?case
    by (simp add: Suc.IH m) (simp add: insert_pending_def)
qed

lemma status_fold:
  "map status (fold sql_update us t) =
     map (\<lambda>r. if row_id r \<in> fst ` set us then Completed else status r) t"
proof (induction us arbitrary: t)
  case Nil
  then show ?case by simp
next
  case (Cons u us)
  obtain i c m where u: "u = (i, c, m)" by (cases u)
  show ?case
    by (auto simp: Cons.IH u comp_def)
qed

lemma statuses_after:
  "map status (fold sql_update (map (\<lambda>i. (i, c, m)) [1..<Suc a]) (populate_tasks (a + j) [])) =
     replicate a Completed @ replicate j Pending"
proof -
  have ids: "fst ` set (map (\<lambda>i. (i, c, m)) [1..<Suc a]) = {1..<Suc a}"
    by (simp add: image_image del: upt_Suc)
  have split: "[1..<Suc (a + j)] = [1..<Suc a] @ [Suc a..<Suc a + j]"
    using upt_add_eq_append [of 1 "Suc a" j] by simp
  have "map status (fold sql_update (map (\<lambda>i. (i, c, m)) [1..<Suc a]) (populate_tasks (a + j) [])) =
        map (\<lambda>i. if i \<in> {1..<Suc a} then Completed else Pending) [1..<Suc (a + j)]"
    by (auto simp: status_fold populate_fresh max_id_def comp_def image_image simp del: upt_Suc)
  also have "\<dots> = map (\<lambda>i. Completed) [1..<Suc a] @ map (\<lambda>i. Pending) [Suc a..<Suc a + j]"
    unfolding split by (auto simp del: upt_Suc)
  also have "\<dots> = replicate a Completed @ replicate j Pending"
    by (simp add: map_replicate_const del: upt_Suc)
  finally show ?thesis .
qed

lemma published_append: "published (es @ fs) = published es @ published fs"
  by (induction es rule: published.induct) simp_all

lemma published_workers:
  "published (map (\<lambda>i. Worker i (Inr (c i)) (Inr (b i))) ids) =
     map (\<lambda>i. (i, c i, real (b i) / (1024 * 1024))) ids"
  by (induction ids) simp_all

lemma published_no_worker:
  "list_all (\<lambda>e. pub_of e = {}) es \<Longrightarrow> published es = []"
proof (induction es)
  case Nil
  then show ?case by simp
next
  case (Cons e es)
  then show ?case by (cases "(e # es)" rule: published.cases) simp_all
qed

lemma last_batch_cancelled:
  assumes n: "n = Suc k * MAX_BATCH"
  shows "\<exists>s bs.
     run ([Acc (Db True), Tick SLEEP]
          @ map (\<lambda>i. Worker i (Inr 1) (Inr 1048576)) [1..<Suc n]
          @ [MainGather]
          @ concat (replicate k
              (replicate MAX_BATCH (Acc Got) @ replicate (MAX_BATCH + 2) (Acc (Db True))))
          @ replicate MAX_BATCH (Acc Got)
          @ [MainJoin]) (main_start n None) = Some s
     \<and> mainpc s = MDone \<and> acc s = Raised CancelledError \<and> queue s = [] \<and> unfinished s = 0
     \<and> sleeping s = [] \<and> raised s = []
     \<and> committed s =
         fold sql_update (map (\<lambda>i. (i, 1, 1)) [1..<Suc (k * MAX_BATCH)]) (populate_tasks n [])
     \<and> flushed s = bs \<and> length bs = k
     \<and> concat bs = map (\<lambda>i. (i, 1, 1)) [1..<Suc (k * MAX_BATCH)]
     \<and> list_all (\<lambda>b. length b = MAX_BATCH) bs"
proof -
  let ?upd = "\<lambda>i::nat. (i, 1::real, 1::real)"
  let ?workers = "map (\<lambda>i. Worker i (Inr 1) (Inr 1048576)) [1..<Suc n]"
  let ?round = "replicate MAX_BATCH (Acc Got) @ replicate (MAX_BATCH + 2) (Acc (Db True))"
  let ?ys = "map ?upd [1..<Suc (k * MAX_BATCH)]"
  let ?q = "map ?upd [Suc (k * MAX_BATCH)..<Suc n]"
  let ?s0 = "main_start n None"
  let ?s1 = "?s0\<lparr>acc := Waiting [] 0, now := SLEEP\<rparr>"
  let ?s2 = "?s1\<lparr>queue := map ?upd [1..<Suc n], unfinished := n,
               logged := logged ?s1 @ map (\<lambda>i. LogTaskCompleted i 1 1) [1..<Suc n],
               sleeping := []\<rparr>"
  let ?s3 = "?s2\<lparr>mainpc := MJoin\<rparr>"
  have split: "[1..<Suc n] = [1..<Suc (k * MAX_BATCH)] @ [Suc (k * MAX_BATCH)..<Suc n]"
    using upt_add_eq_append [of 1 "Suc (k * MAX_BATCH)" MAX_BATCH] n
    by (simp add: add.commute del: upt_Suc)
  have p0: "run [Acc (Db True), Tick SLEEP] ?s0 = Some ?s1"
    by (simp add: main_start_def async_update_batch_def tick_def T_idle_def SLEEP_def
        del: upt_Suc)
  have p1: "run ?workers ?s1 = Some ?s2"
  proof -
    have e: "fold removeAll [1..<Suc n] (sleeping ?s1) = []"
      using set_fold_removeAll [of "[1..<Suc n]" "sleeping ?s1"]
      by (simp add: main_start_def del: upt_Suc)
    have "run (map (\<lambda>i. Worker i (Inr ((\<lambda>_. 1) i)) (Inr ((\<lambda>_. 1048576) i))) [1..<Suc n]) ?s1 =
       Some (?s1\<lparr>queue := queue ?s1 @
                  map (\<lambda>i. (i, (\<lambda>_. 1) i, real ((\<lambda>_. 1048576) i) / (1024 * 1024))) [1..<Suc n],
                unfinished := unfinished ?s1 + length [1..<Suc n],
                logged := logged ?s1 @
                  map (\<lambda>i. LogTaskCompleted i ((\<lambda>_. 1) i)
                        (real ((\<lambda>_. 1048576) i) / (1024 * 1024))) [1..<Suc n],
                sleeping := fold removeAll [1..<Suc n] (sleeping ?s1)\<rparr>)"
      by (rule workers_publish) (simp_all add: main_start_def SLEEP_def del: upt_Suc)
    then show ?thesis
      using e by (simp add: main_start_def del: upt_Suc)
  qed
  have p2: "run [MainGather] ?s2 = Some ?s3"
    by (simp add: main_gather_def main_start_def del: upt_Suc)
  have "\<exists>s' t bs. run (concat (replicate k ?round)) ?s3 = Some s'
     \<and> acc s' = Waiting [] t \<and> queue s' = ?q \<and> unfinished s' = unfinished ?s3 - length ?ys
     \<and> committed s' = fold sql_update ?ys (committed ?s3)
     \<and> flushed s' = flushed ?s3 @ bs \<and> length bs = k \<and> concat bs = ?ys
     \<and> list_all (\<lambda>b. length b = MAX_BATCH) bs
     \<and> mainpc s' = mainpc ?s3 \<and> sleeping s' = sleeping ?s3 \<and> raised s' = raised ?s3"
  proof (rule batch_rounds [where ?t0.0 = 0])
    show "acc ?s3 = Waiting [] 0" by simp
    show "queue ?s3 = ?ys @ ?q"
      using split by (simp del: upt_Suc flip: map_append)
    show "length ?ys = k * MAX_BATCH" by (simp del: upt_Suc)
    show "length ?ys \<le> unfinished ?s3" using n by (simp del: upt_Suc)
  qed
  then obtain s4 t bs where s4: "run (concat (replicate k ?round)) ?s3 = Some s4"
    "acc s4 = Waiting [] t" "queue s4 = ?q" "unfinished s4 = unfinished ?s3 - length ?ys"
    "committed s4 = fold sql_update ?ys (committed ?s3)"
    "flushed s4 = flushed ?s3 @ bs" "length bs = k" "concat bs = ?ys"
    "list_all (\<lambda>b. length b = MAX_BATCH) bs"
    "mainpc s4 = mainpc ?s3" "sleeping s4 = sleeping ?s3" "raised s4 = raised ?s3"
    by blast
  let ?s5 = "s4\<lparr>queue := [], unfinished := unfinished s4 - length ?q, acc := AtBegin ([] @ ?q)\<rparr>"
  have lq: "length ?q = MAX_BATCH"
    using n by (simp del: upt_Suc)
  have u4: "unfinished s4 = MAX_BATCH"
    using s4(4) n by (simp del: upt_Suc)
  have p4: "run (replicate MAX_BATCH (Acc Got)) s4 = Some ?s5"
  proof -
    have "run (replicate (length ?q) (Acc Got)) s4 = Some ?s5"
    proof (rule gets_fill [where ?t0.0 = t])
      show "acc s4 = Waiting [] t" by (rule s4(2))
      show "queue s4 = ?q @ []" using s4(3) by simp
      show "?q \<noteq> []" using lq by (auto simp: MAX_BATCH_def simp del: upt_Suc)
      show "length ([]::task_update list) + length ?q = MAX_BATCH" using lq by simp
      show "length ?q \<le> unfinished s4" using lq u4 by simp
    qed
    then show ?thesis unfolding lq .
  qed
  let ?s6 = "?s5\<lparr>txn := None, acc := Raised CancelledError, mainpc := MDone,
               logged := logged ?s5 @ [LogAllProcessed]\<rparr>"
  have p5: "run [MainJoin] ?s5 = Some ?s6"
    using s4(10) u4 lq by (simp add: main_join_def cancel_def Let_def del: upt_Suc)
  have all: "run ([Acc (Db True), Tick SLEEP] @ ?workers @ [MainGather]
          @ concat (replicate k ?round) @ replicate MAX_BATCH (Acc Got) @ [MainJoin]) ?s0
        = Some ?s6"
    unfolding run_append [of "[Acc (Db True), Tick SLEEP]"] p0 option.case
      run_append [of ?workers] p1
      run_append [of "[MainGather]"] p2
      run_append [of "concat (replicate k ?round)"] s4(1)
      run_append [of "replicate MAX_BATCH (Acc Got)"] p4
    by (rule p5)
  have c: "committed ?s6 = fold sql_update ?ys (populate_tasks n [])"
    using s4(5) by (simp add: main_start_def setup_database_def del: upt_Suc)
  have f: "flushed ?s6 = bs"
    using s4(6) by (simp add: main_start_def del: upt_Suc)
  show ?thesis
    apply (rule exI [of _ ?s6], rule exI [of _ bs])
    using all c f s4(7,8,9,11,12) u4 lq
    by (simp add: main_start_def del: upt_Suc)
qed

lemma nominal_run_result:
  "\<exists>s. run nominal_run (main None) = Some s
     \<and> mainpc s = MDone \<and> acc s = Raised CancelledError \<and> queue s = [] \<and> unfinished s = 0
     \<and> sleeping s = [] \<and> raised s = []
     \<and> committed s =
         fold sql_update (map (\<lambda>i. (i, 1, 1)) [1..<Suc (9 * MAX_BATCH)]) (populate_tasks N_TASKS [])
     \<and> length (flushed s) = 9
     \<and> concat (flushed s) = map (\<lambda>i. (i, 1, 1)) [1..<Suc (9 * MAX_BATCH)]
     \<and> list_all (\<lambda>b. length b = MAX_BATCH) (flushed s)"
proof -
  have n: "N_TASKS = Suc 9 * MAX_BATCH"
    by (simp add: N_TASKS_def MAX_BATCH_def)
  from last_batch_cancelled [OF n] show ?thesis
    unfolding nominal_run_def main_def by blast
qed

lemma published_nominal_run:
  "published nominal_run = map (\<lambda>i. (i, 1, 1)) [1..<Suc N_TASKS]"
proof -
  have w: "published (map (\<lambda>i. Worker i (Inr ((\<lambda>_. 1) i)) (Inr ((\<lambda>_. 1048576) i))) [1..<Suc N_TASKS]) =
     map (\<lambda>i. (i, (\<lambda>_. 1) i, real ((\<lambda>_. 1048576) i) / (1024 * 1024))) [1..<Suc N_TASKS]"
    by (rule published_workers)
  have r: "published (concat (replicate 9
         (replicate MAX_BATCH (Acc Got) @ replicate (MAX_BATCH + 2) (Acc (Db True))))) = []"
    by (rule published_no_worker) (auto simp: list_all_iff)
  have g: "published (replicate MAX_BATCH (Acc Got)) = []"
    by (rule published_no_worker) (simp add: list_all_iff)
  show ?thesis
    unfolding nominal_run_def published_append r g
    using w by (simp del: upt_Suc)
qed












section \<open>Flushing a batch\<close>

text \<open>
  C3 (flush atomicity). A batch is flushed by \<^verbatim>\<open>BEGIN\<close>, one \<^verbatim>\<open>UPDATE\<close> per update and
  \<^verbatim>\<open>commit\<close>: \<open>length u + 2\<close> database calls. For a non-empty batch \<open>u\<close> about to be
  flushed: if the first \<open>k\<close> calls succeed and the next one fails (\<open>k \<le> length u + 1\<close>, so
  the failing call is \<^verbatim>\<open>BEGIN\<close>, any \<^verbatim>\<open>UPDATE\<close> or the \<^verbatim>\<open>commit\<close>), the stored table is
  what it was before the flush and the open transaction is gone; while the calls
  succeed and the commit has not happened the stored table is unchanged; and when all
  calls succeed the stored table is the old one with every update of the batch applied,
  in one commit.
\<close>

theorem flush_atomic:
  assumes "acc s = AtBegin u" and "u \<noteq> []" and "k \<le> length u + 1"
  shows "run (replicate k (Acc (Db True)) @ [Acc (Db False)]) s =
           Some (s\<lparr>txn := None, acc := Raised SqliteError\<rparr>)
       \<and> map_option committed (run (replicate k (Acc (Db True))) s) = Some (committed s)
       \<and> run (replicate (length u + 2) (Acc (Db True))) s =
           Some (s\<lparr>committed := fold sql_update u (committed s), txn := None,
                    flushed := flushed s @ [u], logged := logged s @ [LogBatch (length u)],
                    acc := Waiting [] (now s)\<rparr>)"
  using assms flush_fault [of s u k] flush_prefix [of s u k] flush_commits [of s u] by simp

theorem flush_atomic_witness:
  "acc two_task_batch = AtBegin [(1, 1, 1), (2, 2, 2)]
   \<and> map_option committed
       (run [Acc (Db True), Acc (Db True), Acc (Db False)] two_task_batch) =
       Some [\<lparr>row_id = 1, status = Pending, cpu_usage = 0, memory_usage = 0\<rparr>,
             \<lparr>row_id = 2, status = Pending, cpu_usage = 0, memory_usage = 0\<rparr>]
   \<and> map_option committed (run [Acc (Db True), Acc (Db True), Acc (Db True), Acc (Db True)] two_task_batch) =
       Some [\<lparr>row_id = 1, status = Completed, cpu_usage = 1, memory_usage = 1\<rparr>,
             \<lparr>row_id = 2, status = Completed, cpu_usage = 2, memory_usage = 2\<rparr>]"
  using flush_atomic [of two_task_batch "[(1, 1, 1), (2, 2, 2)]" "Suc (Suc 0)"]
  by (simp add: two_task_batch_eq async_update_batch_def numeral_2_eq_2)

text \<open>
  C10 (an update whose id matches no row). If a batch about to be flushed holds an
  update \<open>(i, c, m)\<close> and no row of the table has the id \<open>i\<close>, the flush still commits
  and the accumulator goes on to the next wait (no exception); the stored table is the
  old one with the other updates of the batch applied; the \<^verbatim>\<open>UPDATE\<close> for \<open>i\<close> changes
  nothing wherever it stands in the transaction; and the logged count is the length
  of the whole batch, more than the number of updates that can match a row.
\<close>

theorem unmatched_id_no_op:
  assumes "acc s = AtBegin u" and "(i, c, m) \<in> set u" and "i \<notin> row_id ` set (committed s)"
  shows "run (replicate (length u + 2) (Acc (Db True))) s =
           Some (s\<lparr>committed := fold sql_update (filter (\<lambda>r. fst r \<noteq> i) u) (committed s),
                    txn := None, flushed := flushed s @ [u],
                    logged := logged s @ [LogBatch (length u)],
                    acc := Waiting [] (now s)\<rparr>)
       \<and> sql_update (i, c, m) (fold sql_update us (committed s)) = fold sql_update us (committed s)
       \<and> length (filter (\<lambda>r. fst r \<noteq> i) u) < length u"
proof -
  have "fold sql_update u (committed s) =
        fold sql_update (filter (\<lambda>r. fst r \<noteq> i) u) (committed s)"
    using assms(3) by (rule fold_sql_update_unmatched)
  moreover have "sql_update (i, c, m) (fold sql_update us (committed s)) =
        fold sql_update us (committed s)"
    using assms(3) by (intro sql_update_unmatched) (simp add: set_row_id_fold)
  moreover have "length (filter (\<lambda>r. fst r \<noteq> i) u) < length u"
    using assms(2) by (intro length_filter_less [of "(i, c, m)"]) simp_all
  ultimately show ?thesis
    using flush_commits [OF assms(1)] by simp
qed

theorem unmatched_id_no_op_witness:
  "acc gap_table_batch = AtBegin [(1, 1, 1), (2, 2, 2)]
   \<and> (1, 1, 1) \<in> set [(1, 1, 1), (2 :: nat, 2 :: real, 2 :: real)]
   \<and> 1 \<notin> row_id ` set (committed gap_table_batch)
   \<and> map_option committed
        (run [Acc (Db True), Acc (Db True), Acc (Db True), Acc (Db True)] gap_table_batch) =
       Some [\<lparr>row_id = 2, status = Completed, cpu_usage = 2, memory_usage = 2\<rparr>,
             \<lparr>row_id = 3, status = Pending, cpu_usage = 0, memory_usage = 0\<rparr>,
             \<lparr>row_id = 4, status = Pending, cpu_usage = 0, memory_usage = 0\<rparr>]
   \<and> map_option logged
        (run [Acc (Db True), Acc (Db True), Acc (Db True), Acc (Db True)] gap_table_batch) =
       Some (logged gap_table_batch @ [LogBatch 2])"
  using unmatched_id_no_op [of gap_table_batch "[(1, 1, 1), (2, 2, 2)]" 1 1 1 "[]"]
  by (simp add: gap_table_batch_eq async_update_batch_def numeral_2_eq_2)


section \<open>Faults\<close>

text \<open>
  C2 as amended (a storage fault during a flush). The source has no handler for a
  database exception: when a database call of a flush raises, the step ends
  \<^verbatim>\<open>async_update_batch\<close> with that exception, the transaction is dropped and nothing is
  logged; in every continuation of the run the accumulator stays ended, no further
  batch is flushed, the stored table no longer changes, and no batch line is logged.
\<close>

theorem flush_fault_ends_accumulator:
  assumes "acc s = AtBegin u \<or> acc s = InTxn u rest"
    and "run es (s\<lparr>txn := None, acc := Raised SqliteError\<rparr>) = Some s'"
  shows "step (Acc (Db False)) s = Some (s\<lparr>txn := None, acc := Raised SqliteError\<rparr>)
       \<and> acc s' = Raised SqliteError \<and> flushed s' = flushed s \<and> committed s' = committed s
       \<and> [m \<leftarrow> logged s'. \<exists>k. m = LogBatch k] = [m \<leftarrow> logged s. \<exists>k. m = LogBatch k]"
proof -
  have "step (Acc (Db False)) s = Some (s\<lparr>txn := None, acc := Raised SqliteError\<rparr>)"
    using assms(1) by (cases rest) (auto simp: async_update_batch_def)
  with raised_stays_run [OF assms(2)] show ?thesis by simp
qed

theorem flush_fault_ends_accumulator_witness:
  "acc two_task_batch = AtBegin [(1, 1, 1), (2, 2, 2)]
   \<and> run [MainGather] (two_task_batch\<lparr>txn := None, acc := Raised SqliteError\<rparr>) =
       Some (two_task_batch\<lparr>txn := None, acc := Raised SqliteError, mainpc := MJoin\<rparr>)
   \<and> step (Acc (Db False)) two_task_batch =
       Some (two_task_batch\<lparr>txn := None, acc := Raised SqliteError\<rparr>)
   \<and> flushed (two_task_batch\<lparr>txn := None, acc := Raised SqliteError, mainpc := MJoin\<rparr>) = []"
  using flush_fault_ends_accumulator [of two_task_batch "[(1, 1, 1), (2, 2, 2)]" "[]" "[MainGather]"
      "two_task_batch\<lparr>txn := None, acc := Raised SqliteError, mainpc := MJoin\<rparr>"]
  by (simp add: two_task_batch_eq async_update_batch_def main_gather_def)

theorem flush_fault_counterexample:
  "map_option acc
     (run [Acc (Db True), Tick (1 / 10), Worker 1 (Inr 1) (Inr 1048576), Acc Got, Tick 5,
           Acc TimedOut, Acc (Db False)] (main_start 2 None)) = Some (Raised SqliteError)
   \<and> map_option logged
     (run [Acc (Db True), Tick (1 / 10), Worker 1 (Inr 1) (Inr 1048576), Acc Got, Tick 5,
           Acc TimedOut, Acc (Db False)] (main_start 2 None)) =
     Some [LogMainStart, LogDbSetup, LogPopulated, LogTaskStart 1, LogTaskStart 2,
           LogTaskCompleted 1 1 1]
   \<and> map_option queue
     (run [Acc (Db True), Tick (1 / 10), Worker 1 (Inr 1) (Inr 1048576), Acc Got, Tick 5,
           Acc TimedOut, Acc (Db False), Worker 2 (Inr 2) (Inr 2097152)] (main_start 2 None)) =
     Some [(2, 2, 2)]
   \<and> run [Acc (Db True), Tick (1 / 10), Worker 1 (Inr 1) (Inr 1048576), Acc Got, Tick 5,
           Acc TimedOut, Acc (Db False), Worker 2 (Inr 2) (Inr 2097152), Acc Got]
        (main_start 2 None) = None"
  by (simp add: pipeline_defs numeral_2_eq_2 upt_conv_Cons)

text \<open>
  C5 as amended (a measurement fault). \<^verbatim>\<open>process_task\<close> has no handler: when
  \<^verbatim>\<open>cpu_percent()\<close> or \<^verbatim>\<open>memory_info()\<close> raises, the exception leaves the worker, nothing
  is put on the queue, and \<^verbatim>\<open>gather\<close> re-raises it in \<^verbatim>\<open>main\<close> (no value is
  substituted). When both readings succeed the worker puts \<open>(task_id, cpu, rss / 1048576)\<close>
  on the queue, and the put never waits.
\<close>

theorem measurement_fault_propagates:
  assumes "i \<in> set (sleeping s)" and "SLEEP \<le> now s"
    and "cpu_percent = Inl e \<or> (cpu_percent = Inr c \<and> rss = Inl e)"
  shows "step (Worker i cpu_percent rss) s =
           Some (s\<lparr>sleeping := removeAll i (sleeping s), raised := raised s @ [e]\<rparr>)
       \<and> process_task i cpu_percent rss s = Inl e
       \<and> (raised s = [] \<and> mainpc s = MGather \<longrightarrow>
            map_option mainpc (run [Worker i cpu_percent rss, MainGather] s) = Some (MFailed e))
       \<and> step (Worker i (Inr c) (Inr b)) s =
           Some (s\<lparr>queue := queue s @ [(i, c, real b / (1024 * 1024))],
                    unfinished := unfinished s + 1,
                    logged := logged s @ [LogTaskCompleted i c (real b / (1024 * 1024))],
                    sleeping := removeAll i (sleeping s)\<rparr>)"
  using assms
  by (auto simp: worker_step_def process_task_def put_def Let_def queue_full_def
      update_queue_maxsize_def main_gather_def)

theorem measurement_fault_propagates_witness:
  "run [Tick (1 / 10), Worker 1 (Inl PsutilError) (Inr 1048576), MainGather] (main_start 2 None) =
     Some ((main_start 2 None)\<lparr>now := 1 / 10, sleeping := [], raised := [PsutilError],
            txn := None, acc := Raised CancelledError, mainpc := MFailed PsutilError\<rparr>)
   \<and> step (Worker 1 (Inr 1) (Inr 1048576)) ((main_start 2 None)\<lparr>now := 1 / 10\<rparr>) =
     Some ((main_start 2 None)\<lparr>now := 1 / 10, queue := [(1, 1, 1)], unfinished := 1,
            logged := logged (main_start 2 None) @ [LogTaskCompleted 1 1 1], sleeping := [2]\<rparr>)"
  using measurement_fault_propagates [of 1 "(main_start 2 None)\<lparr>now := 1 / 10\<rparr>"
      "Inl PsutilError" PsutilError 1 "Inr 1048576" 1048576]
  by (simp add: pipeline_defs numeral_2_eq_2 upt_conv_Cons)

theorem measurement_fault_counterexample:
  "map_option queue
     (run [Acc (Db True), Tick (1 / 10), Worker 1 (Inl PsutilError) (Inr 1048576)]
        (main_start 1 None)) = Some []
   \<and> map_option raised
     (run [Acc (Db True), Tick (1 / 10), Worker 1 (Inl PsutilError) (Inr 1048576)]
        (main_start 1 None)) = Some [PsutilError]
   \<and> run [Acc (Db True), Tick (1 / 10), Worker 1 (Inl PsutilError) (Inr 1048576), MainGather]
        (main_start 1 None) =
     Some ((main_start 1 None)\<lparr>now := 1 / 10, sleeping := [], raised := [PsutilError],
            txn := None, acc := Raised CancelledError, mainpc := MFailed PsutilError\<rparr>)
   \<and> committed (main_start 1 None) =
       [\<lparr>row_id = 1, status = Pending, cpu_usage = 0, memory_usage = 0\<rparr>]"
  by (simp add: pipeline_defs)

section \<open>The queue\<close>

text \<open>
  C6 as amended (the channel has no bound of its own). \<^verbatim>\<open>update_queue\<close> is created
  with \<^verbatim>\<open>maxsize = 0\<close>: it is never full and a put never waits. In every reachable
  state the number of queued updates is bounded only by the number of producers that
  have published (queued updates plus sleeping workers never exceed the number \<open>n\<close> of
  tasks), and the unfinished counter equals the queue length.
\<close>

theorem queue_bounded_by_producers:
  assumes "run es (main_start n file) = Some s"
  shows "length (queue s) + length (sleeping s) \<le> n
       \<and> unfinished s = length (queue s)
       \<and> \<not> queue_full update_queue_maxsize (queue s)
       \<and> (\<forall>i c b. i \<in> set (sleeping s) \<and> SLEEP \<le> now s \<longrightarrow>
             map_option queue (step (Worker i (Inr c) (Inr b)) s) =
               Some (queue s @ [(i, c, real b / (1024 * 1024))]))"
  using queue_inv_run [OF assms]
  by (auto simp: queue_inv_def queue_full_def update_queue_maxsize_def worker_step_def
      process_task_def put_def Let_def)

theorem queue_bounded_by_producers_witness:
  "run [Tick (1 / 10), Worker 1 (Inr 1) (Inr 1048576)] (main_start 2 None) =
     Some ((main_start 2 None)\<lparr>now := 1 / 10, queue := [(1, 1, 1)], unfinished := 1,
            logged := logged (main_start 2 None) @ [LogTaskCompleted 1 1 1],
            sleeping := [2]\<rparr>)
   \<and> map_option queue (step (Worker 2 (Inr 2) (Inr 2097152))
        ((main_start 2 None)\<lparr>now := 1 / 10, queue := [(1, 1, 1)], unfinished := 1,
            logged := logged (main_start 2 None) @ [LogTaskCompleted 1 1 1],
            sleeping := [2]\<rparr>)) = Some [(1, 1, 1), (2, 2, 2)]"
  using queue_bounded_by_producers [of "[Tick (1 / 10), Worker 1 (Inr 1) (Inr 1048576)]" 2 None
      "(main_start 2 None)\<lparr>now := 1 / 10, queue := [(1, 1, 1)], unfinished := 1,
            logged := logged (main_start 2 None) @ [LogTaskCompleted 1 1 1],
            sleeping := [2]\<rparr>"]
  by (simp add: pipeline_defs numeral_2_eq_2 upt_conv_Cons)

theorem queue_unbounded_counterexample:
  "\<not> (\<exists>B. \<forall>n file es s. run es (main_start n file) = Some s \<longrightarrow> length (queue s) \<le> B)"
proof
  assume "\<exists>B. \<forall>n file es s. run es (main_start n file) = Some s \<longrightarrow> length (queue s) \<le> B"
  then obtain B where B: "\<And>n file es s. run es (main_start n file) = Some s \<Longrightarrow> length (queue s) \<le> B"
    by blast
  from B [OF all_published_at_once [of "Suc B" None]] show False by (simp del: upt_Suc)
qed

section \<open>Batch cutoffs\<close>







section \<open>Task rows\<close>

text \<open>
  C4 as amended (task lifecycle). For every state \<open>s\<close> a run of \<^verbatim>\<open>main\<close> reaches and
  every continuation \<open>es'\<close> of the run: each seeded row, in the stored table and in the
  working copy of an open transaction, is either pending with both usage fields 0, or
  completed with the cpu and memory values of an update that a worker published for
  its id (the one \<^verbatim>\<open>UPDATE\<close> sets the three columns together, so a row is never
  completed with usage fields the update has not written, and never pending with
  usage values set). The values written are the worker's readings as they are; the
  code does not check them, and a reading of 0 gives a completed row with a usage
  field 0. The table keeps its rows and ids (the old ones, then the \<open>n\<close> seeded ids); a
  completed row stays completed; and along the continuation the row at any position
  goes from pending to completed at most once.
\<close>

theorem task_lifecycle:
  assumes "run es (main_start n file) = Some s" and "run es' s = Some s'"
  shows "(\<forall>r \<in> set (committed s).
            max_id (setup_database file) < row_id r \<longrightarrow> row_ok (set (published es)) r)
       \<and> (\<forall>t. txn s = Some t \<longrightarrow>
            (\<forall>r \<in> set t.
               max_id (setup_database file) < row_id r \<longrightarrow> row_ok (set (published es)) r))
       \<and> map row_id (committed s) =
           map row_id (setup_database file) @
           [max_id (setup_database file) + 1..<max_id (setup_database file) + 1 + n]
       \<and> never_reverts (committed s) (committed s')
       \<and> (\<forall>k < length (committed s). completions k (states es' s) \<le> 1)"
proof -
  have ri: "rows_inv (max_id (setup_database file)) (set (published es)) s"
    using rows_inv_run [OF assms(1) rows_inv_start] by simp
  have lc: "never_reverts (committed (main_start n file)) (committed s)" and ti: "txn_inv s"
    using lifecycle_run [OF assms(1) txn_inv_start] by simp_all
  have ids: "map row_id (committed s) =
           map row_id (setup_database file) @
           [max_id (setup_database file) + 1..<max_id (setup_database file) + 1 + n]"
    using never_reverts_ids [OF lc] by (simp add: main_start_def populate_ids)
  have nr: "never_reverts (committed s) (committed s')"
    using lifecycle_run [OF assms(2) ti] by simp
  have cb: "\<forall>k < length (committed s). completions k (states es' s) \<le> 1"
  proof (intro allI impI)
    fix k assume "k < length (committed s)"
    from completions_bound [OF ti this, of es'] show "completions k (states es' s) \<le> 1"
      by (simp split: if_splits)
  qed
  from ri have 1: "\<forall>r \<in> set (committed s).
            max_id (setup_database file) < row_id r \<longrightarrow> row_ok (set (published es)) r"
    by (simp add: rows_inv_def table_ok_def)
  from ri have 2: "\<forall>t. txn s = Some t \<longrightarrow>
            (\<forall>r \<in> set t.
               max_id (setup_database file) < row_id r \<longrightarrow> row_ok (set (published es)) r)"
    by (auto simp: rows_inv_def table_ok_def)
  from 1 2 ids nr cb show ?thesis by blast
qed

theorem task_lifecycle_witness:
  "run [Acc (Db True), Tick (1 / 10), Worker 1 (Inr 1) (Inr 1048576), Acc Got, Tick 5,
        Acc TimedOut, Acc (Db True), Acc (Db True)] (main_start 2 None) =
     Some ((main_start 2 None)\<lparr>now := 51 / 10, sleeping := [2],
        logged := logged (main_start 2 None) @ [LogTaskCompleted 1 1 1],
        txn := Some [\<lparr>row_id = 1, status = Completed, cpu_usage = 1, memory_usage = 1\<rparr>,
                     \<lparr>row_id = 2, status = Pending, cpu_usage = 0, memory_usage = 0\<rparr>],
        acc := InTxn [(1, 1, 1)] []\<rparr>)
   \<and> map_option committed (run [Acc (Db True)]
       ((main_start 2 None)\<lparr>now := 51 / 10, sleeping := [2],
        logged := logged (main_start 2 None) @ [LogTaskCompleted 1 1 1],
        txn := Some [\<lparr>row_id = 1, status = Completed, cpu_usage = 1, memory_usage = 1\<rparr>,
                     \<lparr>row_id = 2, status = Pending, cpu_usage = 0, memory_usage = 0\<rparr>],
        acc := InTxn [(1, 1, 1)] []\<rparr>)) =
     Some [\<lparr>row_id = 1, status = Completed, cpu_usage = 1, memory_usage = 1\<rparr>,
           \<lparr>row_id = 2, status = Pending, cpu_usage = 0, memory_usage = 0\<rparr>]
   \<and> committed (main_start 2 None) =
       [\<lparr>row_id = 1, status = Pending, cpu_usage = 0, memory_usage = 0\<rparr>,
        \<lparr>row_id = 2, status = Pending, cpu_usage = 0, memory_usage = 0\<rparr>]
   \<and> row_ok (set (published [Acc (Db True), Tick (1 / 10), Worker 1 (Inr 1) (Inr 1048576),
        Acc Got, Tick 5, Acc TimedOut, Acc (Db True), Acc (Db True)]))
        \<lparr>row_id = 1, status = Completed, cpu_usage = 1, memory_usage = 1\<rparr>
   \<and> completions 0 (states [Acc (Db True)]
       ((main_start 2 None)\<lparr>now := 51 / 10, sleeping := [2],
        logged := logged (main_start 2 None) @ [LogTaskCompleted 1 1 1],
        txn := Some [\<lparr>row_id = 1, status = Completed, cpu_usage = 1, memory_usage = 1\<rparr>,
                     \<lparr>row_id = 2, status = Pending, cpu_usage = 0, memory_usage = 0\<rparr>],
        acc := InTxn [(1, 1, 1)] []\<rparr>)) = 1"
  using task_lifecycle [of
      "[Acc (Db True), Tick (1 / 10), Worker 1 (Inr 1) (Inr 1048576), Acc Got, Tick 5,
        Acc TimedOut, Acc (Db True), Acc (Db True)]" 2 None
      "(main_start 2 None)\<lparr>now := 51 / 10, sleeping := [2],
        logged := logged (main_start 2 None) @ [LogTaskCompleted 1 1 1],
        txn := Some [\<lparr>row_id = 1, status = Completed, cpu_usage = 1, memory_usage = 1\<rparr>,
                     \<lparr>row_id = 2, status = Pending, cpu_usage = 0, memory_usage = 0\<rparr>],
        acc := InTxn [(1, 1, 1)] []\<rparr>"
      "[Acc (Db True)]"
      "(main_start 2 None)\<lparr>now := 51 / 10, sleeping := [2],
        logged := logged (main_start 2 None) @ [LogTaskCompleted 1 1 1, LogBatch 1],
        committed := [\<lparr>row_id = 1, status = Completed, cpu_usage = 1, memory_usage = 1\<rparr>,
                     \<lparr>row_id = 2, status = Pending, cpu_usage = 0, memory_usage = 0\<rparr>],
        flushed := [[(1, 1, 1)]],
        acc := Waiting [] (51 / 10)\<rparr>"]
  by (simp add: pipeline_defs row_ok_def numeral_2_eq_2 upt_conv_Cons)

theorem task_lifecycle_counterexample:
  "map_option committed
     (run [Acc (Db True), Tick (1 / 10), Worker 1 (Inr 0) (Inr 1048576), Acc Got, Tick 5,
           Acc TimedOut, Acc (Db True), Acc (Db True), Acc (Db True)] (main_start 1 None)) =
     Some [\<lparr>row_id = 1, status = Completed, cpu_usage = 0, memory_usage = 1\<rparr>]
   \<and> map_option committed
     (run [Acc (Db True), Tick (1 / 10), Worker 1 (Inr 0) (Inr 0), Acc Got, Tick 5,
           Acc TimedOut, Acc (Db True), Acc (Db True), Acc (Db True)] (main_start 1 None)) =
     Some [\<lparr>row_id = 1, status = Completed, cpu_usage = 0, memory_usage = 0\<rparr>]"
  by (simp add: pipeline_defs)

section \<open>Shutdown\<close>

text \<open>
  \<^verbatim>\<open>join()\<close> is released exactly when the queue is empty, whatever the accumulator
  still holds; and when \<^verbatim>\<open>main\<close> then cancels an accumulator that holds a batch (while
  it waits for more, at \<^verbatim>\<open>BEGIN\<close>, or inside the transaction) the batch is dropped:
  nothing is committed and nothing is added to the flushed batches.
\<close>

lemma join_cancels_held_batch:
  assumes "mainpc s = MJoin" and "unfinished s = 0"
    and "acc s = Waiting u t \<or> acc s = AtBegin u \<or> acc s = InTxn u rest"
  shows "step MainJoin s =
     Some (s\<lparr>txn := None, acc := Raised CancelledError, mainpc := MDone,
              logged := logged s @ [LogAllProcessed]\<rparr>)"
  using assms by (auto simp: main_join_def cancel_def Let_def)

lemma join_released_by_last_get:
  assumes "run es (main_start n file) = Some s" and "mainpc s = MJoin"
  shows "(step MainJoin s \<noteq> None) = (queue s = [])"
  using queue_inv_run [OF assms(1)] assms(2)
  by (auto simp: queue_inv_def main_join_def Let_def)

text \<open>
  C1 (drain on a clean shutdown) does not hold of the code. \<^verbatim>\<open>task_done()\<close> is called
  when an update is received, not when it has been flushed, so \<^verbatim>\<open>update_queue.join()\<close>
  returns as soon as the queue is empty, and \<^verbatim>\<open>main\<close> cancels the accumulator while
  it still holds the last batch. In the run \<open>nominal_run\<close> of \<^verbatim>\<open>main\<close> on a new database
  every worker has published, \<^verbatim>\<open>main\<close> has ended normally and the accumulator has ended
  with \<^verbatim>\<open>CancelledError\<close>; the 1000 updates of the tasks 1 to 1000 were published, the
  flushed batches hold the updates of the tasks 1 to 900 only, and the update of
  task 1000 is in no flushed batch.
\<close>

theorem clean_shutdown_loses_last_batch:
  "\<exists>s. run nominal_run (main None) = Some s
     \<and> mainpc s = MDone \<and> acc s = Raised CancelledError
     \<and> queue s = [] \<and> unfinished s = 0 \<and> sleeping s = [] \<and> raised s = []
     \<and> published nominal_run = map (\<lambda>i. (i, 1, 1)) [1..<1001]
     \<and> concat (flushed s) = map (\<lambda>i. (i, 1, 1)) [1..<901]
     \<and> (1000, 1, 1) \<in> set (published nominal_run)
     \<and> (1000, 1, 1) \<notin> set (concat (flushed s))"
proof -
  from nominal_run_result obtain s where s: "run nominal_run (main None) = Some s"
    "mainpc s = MDone" "acc s = Raised CancelledError" "queue s = []" "unfinished s = 0"
    "sleeping s = []" "raised s = []"
    "concat (flushed s) = map (\<lambda>i. (i, 1, 1)) [1..<Suc (9 * MAX_BATCH)]"
    by blast
  have a: "Suc N_TASKS = 1001" and b: "Suc (9 * MAX_BATCH) = 901"
    by (simp_all add: N_TASKS_def MAX_BATCH_def)
  have p: "published nominal_run = map (\<lambda>i. (i, 1, 1)) [1..<1001]"
    using published_nominal_run unfolding a .
  have f: "concat (flushed s) = map (\<lambda>i. (i, 1, 1)) [1..<901]"
    using s(8) unfolding b .
  have m1: "(1000, 1, 1) \<in> set (published nominal_run)"
    unfolding p by (simp add: image_iff del: upt_rec_numeral)
  have m2: "(1000, 1, 1) \<notin> set (concat (flushed s))"
    unfolding f by (simp add: image_iff del: upt_rec_numeral)
  from s(1-7) p f m1 m2 show ?thesis by blast
qed

text \<open>
  C8 (end-to-end nominal run) does not hold of the code, by the same defect. At the
  end of the run \<open>nominal_run\<close> (1000 seeded tasks, 1000 workers, no fault, no idle
  timeout) \<^verbatim>\<open>main\<close> has ended normally, 9 transactions of 100 updates each have been
  committed, and of the 1000 rows (ids 1 to 1000) the first 900 are completed and
  the last 100 are still pending.
\<close>

theorem nominal_run_leaves_100_pending:
  "\<exists>s. run nominal_run (main None) = Some s
     \<and> mainpc s = MDone \<and> raised s = []
     \<and> length (flushed s) = 9
     \<and> list_all (\<lambda>b. length b = 100) (flushed s)
     \<and> map row_id (committed s) = [1..<1001]
     \<and> map status (committed s) = replicate 900 Completed @ replicate 100 Pending"
proof -
  from nominal_run_result obtain s where s: "run nominal_run (main None) = Some s"
    "mainpc s = MDone" "raised s = []"
    "committed s =
       fold sql_update (map (\<lambda>i. (i, 1, 1)) [1..<Suc (9 * MAX_BATCH)]) (populate_tasks N_TASKS [])"
    "length (flushed s) = 9" "list_all (\<lambda>b. length b = MAX_BATCH) (flushed s)"
    by blast
  have n: "N_TASKS = 9 * MAX_BATCH + MAX_BATCH"
    by (simp add: N_TASKS_def MAX_BATCH_def)
  have st: "map status (committed s) = replicate (9 * MAX_BATCH) Completed @ replicate MAX_BATCH Pending"
    unfolding s(4) n by (rule statuses_after)
  have st': "map status (committed s) = replicate 900 Completed @ replicate 100 Pending"
    using st by (simp add: MAX_BATCH_def)
  have "map row_id (committed s) = [1..<Suc N_TASKS]"
    unfolding s(4) by (simp add: map_row_id_fold populate_ids max_id_def del: upt_Suc)
  then have ids: "map row_id (committed s) = [1..<1001]"
    by (simp add: N_TASKS_def del: upt_Suc upt_rec_numeral)
  have la: "list_all (\<lambda>b. length b = 100) (flushed s)"
    using s(6) by (simp add: MAX_BATCH_def)
  from s(1,2,3,5) la ids st' show ?thesis by blast
qed

end
